theory Spec2Isabelle
  imports Main
begin

section \<open>Python strings\<close>

text \<open>
  A Python \<open>str\<close> is a sequence of Unicode code points. Code points are modelled as
  natural numbers, so that \<open>str.strip()\<close> can be given its real whitespace set (which
  contains the no-break space U+00A0 that HTML pages are full of) and not only the
  ASCII one. \<open>py\<close> turns an Isabelle string literal into such a string.
\<close>

type_synonym pychar = nat
type_synonym pystr = "pychar list"

definition py :: "string \<Rightarrow> pystr" where
  "py s = map of_char s"

definition LF :: pychar where "LF = 10"
definition CR :: pychar where "CR = 13"
definition delimiter :: pychar where "delimiter = 44"
definition quotechar :: pychar where "quotechar = 34"

text \<open>
  \<open>str.isspace\<close> on one code point (CPython's \<open>_PyUnicode_IsWhitespace\<close>): the
  characters that \<open>str.strip()\<close> without argument removes.
\<close>

definition isspace :: "pychar \<Rightarrow> bool" where
  "isspace c \<longleftrightarrow>
     (9 \<le> c \<and> c \<le> 13) \<or> (28 \<le> c \<and> c \<le> 32) \<or> c = 133 \<or> c = 160 \<or> c = 5760 \<or>
     (8192 \<le> c \<and> c \<le> 8202) \<or> c = 8232 \<or> c = 8233 \<or> c = 8239 \<or> c = 8287 \<or> c = 12288"

text \<open>
  \<open>str.strip()\<close>: the index \<open>i\<close> runs right over the leading whitespace, then the index
  \<open>j\<close> runs left over the trailing whitespace of what is left, and the slice
  \<open>s[i:j]\<close> is returned.
\<close>

definition lstrip :: "pystr \<Rightarrow> pystr" where
  "lstrip s = dropWhile isspace s"

definition rstrip :: "pystr \<Rightarrow> pystr" where
  "rstrip s = rev (dropWhile isspace (rev s))"

definition strip :: "pystr \<Rightarrow> pystr" where
  "strip s = rstrip (lstrip s)"

section \<open>The parsed page\<close>

text \<open>
  \<open>bs4.BeautifulSoup(req.text, 'html.parser')\<close> gives a tree of tags and strings; the
  soup object is itself a tag (the document). A string has a class: plain text is a
  \<open>NavigableString\<close>, a comment a \<open>Comment\<close>, and the parser gives the strings inside
  \<open>script\<close>, \<open>style\<close>, \<open>template\<close>, \<open>rt\<close> and \<open>rp\<close> classes of their own.
\<close>

datatype string_class =
  NavigableString | CData | Comment | Script | Stylesheet | TemplateString
  | RubyTextString | RubyParenthesisString

datatype node =
    Tag (name: pystr) (attrs: "(pystr \<times> pystr) list") (contents: "node list")
  | Str string_class pystr

text \<open>
  The notebooks use three operations: \<open>find_all(name)\<close>, every descendant tag of that
  name in document order; \<open>find(name)\<close>, the first of them or \<open>None\<close>; and \<open>.text\<close>.
\<close>

fun descendants :: "node \<Rightarrow> node list" where
  "descendants (Tag n a cs) = concat (map (\<lambda>c. c # descendants c) cs)"
| "descendants (Str k s) = []"

fun is_named :: "pystr \<Rightarrow> node \<Rightarrow> bool" where
  "is_named nm (Tag n a cs) = (n = nm)"
| "is_named nm (Str k s) = False"

definition find_all :: "pystr \<Rightarrow> node \<Rightarrow> node list" where
  "find_all nm t = filter (is_named nm) (descendants t)"

definition find_first :: "pystr \<Rightarrow> node \<Rightarrow> node option" where
  "find_first nm t = (case find_all nm t of [] \<Rightarrow> None | x # xs \<Rightarrow> Some x)"

text \<open>
  \<open>.text\<close> of a tag joins its descendant strings of the classes the tag is interested
  in: the plain ones for a tag like \<open>td\<close>, so that comments and the contents of a
  script or a style sheet inside a cell are no part of the cell's text; a \<open>script\<close>
  tag itself is interested in its own class of strings only, and so on.
\<close>

definition interesting_string_types :: "pystr \<Rightarrow> string_class list" where
  "interesting_string_types nm =
     (if nm = py ''script'' then [Script]
      else if nm = py ''style'' then [Stylesheet]
      else if nm = py ''template'' then [TemplateString]
      else if nm = py ''rt'' then [RubyTextString]
      else if nm = py ''rp'' then [RubyParenthesisString]
      else [NavigableString, CData])"

fun string_of :: "string_class list \<Rightarrow> node \<Rightarrow> pystr" where
  "string_of types (Str k s) = (if k \<in> set types then s else [])"
| "string_of types (Tag n a cs) = []"

fun get_text :: "node \<Rightarrow> pystr" where
  "get_text (Str k s) = s"
| "get_text (Tag n a cs) =
     concat (map (string_of (interesting_string_types n)) (descendants (Tag n a cs)))"

section \<open>Errors and indexing\<close>

text \<open>
  The notebooks catch nothing, so an exception ends the run. \<open>ConnectionError\<close> stands
  for whatever \<open>requests.get\<close> raises, \<open>AttributeError\<close> is what calling a method on
  \<open>None\<close> raises, \<open>IndexError\<close> what \<open>cells[i]\<close> raises out of range, and
  \<open>UnicodeEncodeError\<close> what writing to a text file raises when the file's encoding
  has no bytes for a character.
\<close>

datatype py_error = ConnectionError | AttributeError | IndexError | UnicodeEncodeError

definition getitem :: "'a list \<Rightarrow> nat \<Rightarrow> py_error + 'a" where
  "getitem xs i = (if i < length xs then Inr (xs ! i) else Inl IndexError)"

section \<open>Writing CSV\<close>

text \<open>
  \<open>csv.writer(outfile)\<close> with no further argument uses the \<open>excel\<close> dialect: delimiter
  \<open>,\<close>, quote character \<open>"\<close>, quotes doubled, minimal quoting, line terminator
  \<open>\r\n\<close>. A field is quoted when it holds the delimiter, the quote character, a carriage
  return or a line feed; a record whose text would be empty although it has a field
  (one empty field) is written as \<open>""\<close>. Every field here is already a \<open>str\<close>.
\<close>

definition lineterminator :: pystr where
  "lineterminator = [CR, LF]"

definition needs_quotes :: "pystr \<Rightarrow> bool" where
  "needs_quotes field =
     list_ex (\<lambda>c. c = delimiter \<or> c = quotechar \<or> c = LF \<or> c = CR) field"

fun doublequote :: "pystr \<Rightarrow> pystr" where
  "doublequote [] = []"
| "doublequote (c # cs) =
     (if c = quotechar then quotechar # quotechar # doublequote cs else c # doublequote cs)"

definition join_append :: "pystr \<Rightarrow> pystr" where
  "join_append field =
     (if needs_quotes field then quotechar # doublequote field @ [quotechar] else field)"

fun join_fields :: "pystr list \<Rightarrow> pystr" where
  "join_fields [] = []"
| "join_fields [f] = join_append f"
| "join_fields (f # g # fs) = join_append f @ delimiter # join_fields (g # fs)"

definition csv_line :: "pystr list \<Rightarrow> pystr" where
  "csv_line row =
     (let rec = join_fields row
      in (if row \<noteq> [] \<and> rec = [] then [quotechar, quotechar] else rec) @ lineterminator)"

section \<open>Reading CSV back\<close>

text \<open>
  The standard reader is \<open>csv.reader\<close> over the file opened with \<open>newline=''\<close>, in the
  same dialect. Iterating over the file gives its lines, each with its line end
  (\<open>\n\<close>, \<open>\r\n\<close> or a lone \<open>\r\<close>) untranslated; \<open>line\<close> is the part of the
  current line already seen.
\<close>

fun readlines :: "pystr \<Rightarrow> pystr \<Rightarrow> pystr list" where
  "readlines line [] = (if line = [] then [] else [line])"
| "readlines line (c # cs) =
     (if c = LF then (line @ [LF]) # readlines [] cs
      else if c = CR then
        (case cs of
           [] \<Rightarrow> [line @ [CR]]
         | d # ds \<Rightarrow>
             if d = LF then (line @ [CR, LF]) # readlines [] ds
             else (line @ [CR]) # readlines [] cs)
      else readlines (line @ [c]) cs)"

text \<open>
  The reader is the state machine of the \<open>_csv\<close> module. It is fed the characters of a
  line and then an end-of-line mark. The states for an escape character are left out:
  the dialect has none. The reader is not strict, does not skip initial spaces, and
  the limit on the size of a field is not modelled.
\<close>

datatype parser_state =
  START_RECORD | START_FIELD | IN_FIELD | IN_QUOTED_FIELD | QUOTE_IN_QUOTED_FIELD | EAT_CRNL

datatype event = Ch pychar | EOL

datatype csv_error = Error

record reader =
  state :: parser_state
  field :: pystr
  rfields :: "pystr list"

definition parse_reset :: reader where
  "parse_reset = \<lparr>state = START_RECORD, field = [], rfields = []\<rparr>"

definition parse_save_field :: "reader \<Rightarrow> reader" where
  "parse_save_field r = r\<lparr>rfields := rfields r @ [field r], field := []\<rparr>"

definition parse_add_char :: "reader \<Rightarrow> pychar \<Rightarrow> reader" where
  "parse_add_char r c = r\<lparr>field := field r @ [c]\<rparr>"

definition start_field :: "reader \<Rightarrow> event \<Rightarrow> reader" where
  "start_field r e =
     (case e of
        EOL \<Rightarrow> (parse_save_field r)\<lparr>state := START_RECORD\<rparr>
      | Ch c \<Rightarrow>
          if c = LF \<or> c = CR then (parse_save_field r)\<lparr>state := EAT_CRNL\<rparr>
          else if c = quotechar then r\<lparr>state := IN_QUOTED_FIELD\<rparr>
          else if c = delimiter then parse_save_field r
          else (parse_add_char r c)\<lparr>state := IN_FIELD\<rparr>)"

definition parse_process_char :: "reader \<Rightarrow> event \<Rightarrow> csv_error + reader" where
  "parse_process_char r e =
     (case state r of
        START_RECORD \<Rightarrow>
          (case e of
             EOL \<Rightarrow> Inr r
           | Ch c \<Rightarrow>
               if c = LF \<or> c = CR then Inr (r\<lparr>state := EAT_CRNL\<rparr>)
               else Inr (start_field (r\<lparr>state := START_FIELD\<rparr>) e))
      | START_FIELD \<Rightarrow> Inr (start_field r e)
      | IN_FIELD \<Rightarrow>
          (case e of
             EOL \<Rightarrow> Inr ((parse_save_field r)\<lparr>state := START_RECORD\<rparr>)
           | Ch c \<Rightarrow>
               if c = LF \<or> c = CR then Inr ((parse_save_field r)\<lparr>state := EAT_CRNL\<rparr>)
               else if c = delimiter then Inr ((parse_save_field r)\<lparr>state := START_FIELD\<rparr>)
               else Inr (parse_add_char r c))
      | IN_QUOTED_FIELD \<Rightarrow>
          (case e of
             EOL \<Rightarrow> Inr r
           | Ch c \<Rightarrow>
               if c = quotechar then Inr (r\<lparr>state := QUOTE_IN_QUOTED_FIELD\<rparr>)
               else Inr (parse_add_char r c))
      | QUOTE_IN_QUOTED_FIELD \<Rightarrow>
          (case e of
             EOL \<Rightarrow> Inr ((parse_save_field r)\<lparr>state := START_RECORD\<rparr>)
           | Ch c \<Rightarrow>
               if c = quotechar then Inr ((parse_add_char r c)\<lparr>state := IN_QUOTED_FIELD\<rparr>)
               else if c = delimiter then Inr ((parse_save_field r)\<lparr>state := START_FIELD\<rparr>)
               else if c = LF \<or> c = CR then Inr ((parse_save_field r)\<lparr>state := EAT_CRNL\<rparr>)
               else Inr ((parse_add_char r c)\<lparr>state := IN_FIELD\<rparr>))
      | EAT_CRNL \<Rightarrow>
          (case e of
             EOL \<Rightarrow> Inr (r\<lparr>state := START_RECORD\<rparr>)
           | Ch c \<Rightarrow> if c = LF \<or> c = CR then Inr r else Inl Error))"

fun feed :: "reader \<Rightarrow> pystr \<Rightarrow> csv_error + reader" where
  "feed r [] = Inr r"
| "feed r (c # cs) =
     (case parse_process_char r (Ch c) of Inl e \<Rightarrow> Inl e | Inr r' \<Rightarrow> feed r' cs)"

text \<open>
  \<open>list(csv.reader(f))\<close>: a record is complete when the machine is back in
  \<open>START_RECORD\<close> after a line, and the machine is reset for the next one. When the
  lines run out inside a record, what was read of it is returned.
\<close>

fun read_lines :: "reader \<Rightarrow> pystr list \<Rightarrow> csv_error + pystr list list" where
  "read_lines r [] =
     Inr (if field r \<noteq> [] \<or> state r = IN_QUOTED_FIELD then [rfields (parse_save_field r)] else [])"
| "read_lines r (l # ls) =
     (case feed r l of Inl e \<Rightarrow> Inl e | Inr r1 \<Rightarrow>
        (case parse_process_char r1 EOL of Inl e \<Rightarrow> Inl e | Inr r2 \<Rightarrow>
           if state r2 = START_RECORD
           then (case read_lines parse_reset ls of
                   Inl e \<Rightarrow> Inl e
                 | Inr records \<Rightarrow> Inr (rfields r2 # records))
           else read_lines r2 ls))"

definition csv_reader :: "pystr \<Rightarrow> csv_error + pystr list list" where
  "csv_reader text = read_lines parse_reset (readlines [] text)"

section \<open>The output file\<close>

text \<open>
  A file opened for writing in text mode, with the \<open>newline\<close> and \<open>encoding\<close> arguments
  of the \<open>open\<close> call as given (\<open>None\<close> when left out) and the text written so far.
  \<open>open(path, 'w', ...)\<close> creates the file or truncates it at once; the \<open>with\<close> block
  closes it on the way out, also when an exception leaves the block, so everything
  written up to then is in the file. The file system maps a path to its file.
\<close>

record text_file =
  newline :: "pystr option"
  encoding :: "pystr option"
  written :: pystr

type_synonym filesystem = "string \<rightharpoonup> text_file"

definition open_w :: "pystr option \<Rightarrow> pystr option \<Rightarrow> text_file" where
  "open_w nl enc = \<lparr>newline = nl, encoding = enc, written = []\<rparr>"

text \<open>
  The text layer: a string appended to the file, and the writer's \<open>writerow\<close> and
  \<open>writerows\<close> as they hand one line per record to the file's \<open>write\<close>, on a file
  that takes every string.
\<close>

definition file_write :: "text_file \<Rightarrow> pystr \<Rightarrow> text_file" where
  "file_write f s = f\<lparr>written := written f @ s\<rparr>"

definition writerow :: "text_file \<Rightarrow> pystr list \<Rightarrow> text_file" where
  "writerow f row = file_write f (csv_line row)"

fun writerows :: "text_file \<Rightarrow> pystr list list \<Rightarrow> text_file" where
  "writerows f [] = f"
| "writerows f (row # rows) = writerows (writerow f row) rows"

text \<open>
  What reaches the disk depends on the platform for the arguments left out: with
  \<open>encoding=None\<close> the text is encoded in the locale's encoding, and with
  \<open>newline=None\<close> every \<open>\n\<close> written becomes \<open>os.linesep\<close>. With \<open>newline=''\<close> or
  \<open>newline='\n'\<close> nothing is translated; any other value replaces \<open>\n\<close>. The platform
  says which characters beyond ASCII its locale encoding has bytes for (a locale
  encoding extends ASCII).
\<close>

record platform =
  locale_encoding :: pystr
  locale_encodes :: "pychar \<Rightarrow> bool"
  linesep :: pystr

definition file_encoding :: "platform \<Rightarrow> text_file \<Rightarrow> pystr" where
  "file_encoding os f = (case encoding f of None \<Rightarrow> locale_encoding os | Some e \<Rightarrow> e)"

definition translate_newlines :: "pystr \<Rightarrow> pystr \<Rightarrow> pystr" where
  "translate_newlines nl s = concat (map (\<lambda>c. if c = LF then nl else [c]) s)"

definition newline_translated :: "platform \<Rightarrow> pystr option \<Rightarrow> pystr \<Rightarrow> pystr" where
  "newline_translated os nl s =
     (case nl of
        None \<Rightarrow> translate_newlines (linesep os) s
      | Some n \<Rightarrow> if n = [] \<or> n = [LF] then s else translate_newlines n s)"

definition file_text :: "platform \<Rightarrow> text_file \<Rightarrow> pystr" where
  "file_text os f = newline_translated os (newline f) (written f)"

text \<open>
  UTF-8 encodes every code point but the surrogates. The two encodings that occur
  are \<open>utf-8\<close>, named in one \<open>open\<close> call, and the locale's for the other.
\<close>

definition utf8_encodes :: "pychar \<Rightarrow> bool" where
  "utf8_encodes c \<longleftrightarrow> c < 55296 \<or> (57343 < c \<and> c < 1114112)"

definition can_encode :: "platform \<Rightarrow> pystr \<Rightarrow> pychar \<Rightarrow> bool" where
  "can_encode os enc c =
     (if enc = py ''utf-8'' then utf8_encodes c else c < 128 \<or> locale_encodes os c)"

text \<open>
  \<open>outfile.write(s)\<close> on the file as it was opened: the text is encoded as it is
  written, after the translation of its newlines, and a character the encoding lacks
  raises \<open>UnicodeEncodeError\<close> with nothing of \<open>s\<close> written. \<open>writer.writerow\<close> is one
  such \<open>write\<close> of the record's line, \<open>writer.writerows\<close> one per record, up to the
  first that fails.
\<close>

definition outfile_write :: "platform \<Rightarrow> text_file \<Rightarrow> pystr \<Rightarrow> py_error + text_file" where
  "outfile_write os f s =
     (if list_all (can_encode os (file_encoding os f)) (newline_translated os (newline f) s)
      then Inr (file_write f s)
      else Inl UnicodeEncodeError)"

definition writer_writerow :: "platform \<Rightarrow> text_file \<Rightarrow> pystr list \<Rightarrow> py_error + text_file" where
  "writer_writerow os f row = outfile_write os f (csv_line row)"

fun writer_writerows ::
  "platform \<Rightarrow> text_file \<Rightarrow> pystr list list \<Rightarrow> py_error option \<times> text_file" where
  "writer_writerows os f [] = (None, f)"
| "writer_writerows os f (row # rows) =
     (case writer_writerow os f row of
        Inl e \<Rightarrow> (Some e, f)
      | Inr f' \<Rightarrow> writer_writerows os f' rows)"

section \<open>U.S. Senate press gallery\<close>

definition headers :: "pystr list" where
  "headers = [py ''first'', py ''last'', py ''affiliation'']"

text \<open>
  The body of the loop up to the \<open>writerow\<close> call: the \<open>td\<close> cells of the row, and the
  stripped text of the first three, read in this order.
\<close>

definition senate_record :: "node \<Rightarrow> py_error + pystr list" where
  "senate_record row =
     (let cells = find_all (py ''td'') row in
      (case getitem cells 0 of Inl e \<Rightarrow> Inl e | Inr c0 \<Rightarrow>
        (let first_name = strip (get_text c0) in
         (case getitem cells 1 of Inl e \<Rightarrow> Inl e | Inr c1 \<Rightarrow>
           (let last_name = strip (get_text c1) in
            (case getitem cells 2 of Inl e \<Rightarrow> Inl e | Inr c2 \<Rightarrow>
              (let affiliation = strip (get_text c2) in
               Inr [first_name, last_name, affiliation])))))))"

text \<open>
  \<open>for row in rows:\<close> with the file open. An exception, from the cells or from the
  write, leaves the loop with the file as the rows before left it.
\<close>

fun senate_loop :: "platform \<Rightarrow> text_file \<Rightarrow> node list \<Rightarrow> py_error option \<times> text_file" where
  "senate_loop os outfile [] = (None, outfile)"
| "senate_loop os outfile (row # rows) =
     (case senate_record row of
        Inl e \<Rightarrow> (Some e, outfile)
      | Inr r \<Rightarrow>
          (case writer_writerow os outfile r of
             Inl e \<Rightarrow> (Some e, outfile)
           | Inr outfile' \<Rightarrow> senate_loop os outfile' rows))"

text \<open>
  The notebook from the request on, on a given platform. The argument is what
  \<open>requests.get\<close> gave: an exception, or the response, taken here as the soup parsed
  from its text (the notebook does not look at the status code; what it prints is
  left out). The result is the exception that ended the run, if any, and the file
  system afterwards. The file is opened with \<open>newline=''\<close> and no encoding.
\<close>

definition senate_csv :: string where
  "senate_csv = ''us-senate-press-gallery.csv''"

definition senate_pipeline ::
  "platform \<Rightarrow> py_error + node \<Rightarrow> filesystem \<Rightarrow> py_error option \<times> filesystem" where
  "senate_pipeline os req fs =
     (case req of Inl e \<Rightarrow> (Some e, fs) | Inr soup \<Rightarrow>
        (case find_first (py ''table'') soup of
           None \<Rightarrow> (Some AttributeError, fs)
         | Some table \<Rightarrow>
            (let rows = drop 1 (find_all (py ''tr'') table);
                 outfile = open_w (Some []) None
             in (case writer_writerow os outfile headers of
                   Inl e \<Rightarrow> (Some e, fs(senate_csv \<mapsto> outfile))
                 | Inr outfile \<Rightarrow>
                     (let (err, outfile) = senate_loop os outfile rows
                      in (err, fs(senate_csv \<mapsto> outfile)))))))"

section \<open>South Dakota WARN notices\<close>

definition csv_headers :: "pystr list" where
  "csv_headers = [py ''company'', py ''location'', py ''date'', py ''employees_laid_off'', py ''url'']"

text \<open>
  The extraction loop as the notebook has it: the body prints the row and nothing
  else (the steps are comments), so \<open>data_to_write\<close> is handed on as it came.
\<close>

fun sd_loop :: "pystr list list \<Rightarrow> node list \<Rightarrow> pystr list list" where
  "sd_loop data_to_write [] = data_to_write"
| "sd_loop data_to_write (row # rows) = sd_loop data_to_write rows"

definition sd_csv :: string where
  "sd_csv = ''sd-warn-notices.csv''"

text \<open>
  The last code cell: the file is opened with \<open>newline=''\<close> and \<open>encoding='utf-8'\<close>,
  the headers are written and then the collected rows.
\<close>

definition sd_write ::
  "platform \<Rightarrow> pystr list list \<Rightarrow> filesystem \<Rightarrow> py_error option \<times> filesystem" where
  "sd_write os data_to_write fs =
     (let outfile = open_w (Some []) (Some (py ''utf-8''))
      in (case writer_writerow os outfile csv_headers of
            Inl e \<Rightarrow> (Some e, fs(sd_csv \<mapsto> outfile))
          | Inr outfile \<Rightarrow>
              (let (err, outfile) = writer_writerows os outfile data_to_write
               in (err, fs(sd_csv \<mapsto> outfile)))))"

definition sd_pipeline ::
  "platform \<Rightarrow> py_error + node \<Rightarrow> filesystem \<Rightarrow> py_error option \<times> filesystem" where
  "sd_pipeline os req fs =
     (case req of Inl e \<Rightarrow> (Some e, fs) | Inr soup \<Rightarrow>
        (case find_first (py ''table'') soup of
           None \<Rightarrow> (Some AttributeError, fs)
         | Some table \<Rightarrow>
            (let rows = find_all (py ''tr'') table;
                 data_to_write = sd_loop [] rows
             in sd_write os data_to_write fs)))"

section \<open>Notions used in the properties\<close>

text \<open>
  The reader started in a given state on the whole text of a file, and what it does
  at the end of a line: the record is complete when the end-of-line mark brings the
  machine back to \<open>START_RECORD\<close>.
\<close>

definition scan :: "reader \<Rightarrow> pystr \<Rightarrow> csv_error + pystr list list" where
  "scan r inp = read_lines r (readlines [] inp)"

definition end_line :: "reader \<Rightarrow> pystr \<Rightarrow> csv_error + pystr list list" where
  "end_line r inp =
     (case parse_process_char r EOL of Inl e \<Rightarrow> Inl e | Inr r2 \<Rightarrow>
        if state r2 = START_RECORD
        then (case scan parse_reset inp of
                Inl e \<Rightarrow> Inl e
              | Inr records \<Rightarrow> Inr (rfields r2 # records))
        else scan r2 inp)"

text \<open>
  The reader has just read the field \<open>f\<close> after the fields \<open>before\<close>: the field is
  in the buffer and the machine is in a state where a delimiter or a line end saves it.
\<close>

definition field_done :: "pystr list \<Rightarrow> pystr \<Rightarrow> reader \<Rightarrow> bool" where
  "field_done before f r \<longleftrightarrow>
     rfields r = before \<and> field r = f \<and>
     (state r = IN_FIELD \<or> state r = QUOTE_IN_QUOTED_FIELD \<or> (state r = START_FIELD \<and> f = []))"

text \<open>
  A row of the Senate table whose cells the loop body can read has at least three
  \<open>td\<close> cells; \<open>senate_fields\<close> is the record the body then writes. The write goes
  through when the file's encoding has every character of the record; a row is
  \<open>row_ok\<close> on a platform when both hold for the Senate file, whose encoding is
  the locale's.
\<close>

definition has_cells :: "node \<Rightarrow> bool" where
  "has_cells row \<longleftrightarrow> 3 \<le> length (find_all (py ''td'') row)"

definition senate_fields :: "node \<Rightarrow> pystr list" where
  "senate_fields row =
     [strip (get_text (find_all (py ''td'') row ! 0)),
      strip (get_text (find_all (py ''td'') row ! 1)),
      strip (get_text (find_all (py ''td'') row ! 2))]"

definition encodable :: "platform \<Rightarrow> pystr \<Rightarrow> pystr list \<Rightarrow> bool" where
  "encodable os enc r = list_all (list_all (can_encode os enc)) r"

definition row_ok :: "platform \<Rightarrow> node \<Rightarrow> bool" where
  "row_ok os row \<longleftrightarrow> has_cells row \<and> encodable os (locale_encoding os) (senate_fields row)"

definition row_error :: "node \<Rightarrow> py_error" where
  "row_error row = (if has_cells row then UnicodeEncodeError else IndexError)"

subsection \<open>Sample pages\<close>

definition tag :: "string \<Rightarrow> node list \<Rightarrow> node" where
  "tag nm cs = Tag (py nm) [] cs"

definition cell :: "string \<Rightarrow> node" where
  "cell s = tag ''td'' [Str NavigableString (py s)]"

definition document :: "node list \<Rightarrow> node" where
  "document cs = tag ''[document]'' cs"

definition no_files :: filesystem where
  "no_files = Map.empty"

definition header_row :: node where
  "header_row = tag ''tr'' [tag ''th'' [Str NavigableString (py ''First'')],
     tag ''th'' [Str NavigableString (py ''Last'')], tag ''th'' [Str NavigableString (py ''Affiliation'')]]"

definition table_header_only :: node where
  "table_header_only = tag ''table'' [header_row]"

definition page_header_only :: node where
  "page_header_only = document [tag ''h1'' [Str NavigableString (py ''Membership'')], table_header_only]"


definition row_ann :: node where
  "row_ann = tag ''tr'' [cell '' Ann '', cell ''Lee'', cell ''Acme, Inc.'']"

definition row_bo :: node where
  "row_bo = tag ''tr'' [cell ''Bo'', tag ''td'' [tag ''b'' [Str NavigableString (py ''Diaz'')]],
     tag ''td'' [Str NavigableString (py ''The Gazette'' @ [160, LF])]]"

definition row_short :: node where
  "row_short = tag ''tr'' [cell ''Cy'', cell ''Moss'']"

definition table_two_rows :: node where
  "table_two_rows = tag ''table'' [header_row, row_ann, row_bo]"

definition page_two_rows :: node where
  "page_two_rows = document [table_two_rows]"

definition table_short_row :: node where
  "table_short_row = tag ''table'' [header_row, row_short]"

definition page_short_row :: node where
  "page_short_row = document [table_short_row]"

definition table_partial :: node where
  "table_partial = tag ''table'' [header_row, row_ann, row_short, row_bo]"

definition page_partial :: node where
  "page_partial = document [table_partial]"

definition page_no_table :: node where
  "page_no_table = document [tag ''p'' [Str NavigableString (py ''Service unavailable'')]]"

definition page_empty :: node where
  "page_empty = document []"

definition row_link :: node where
  "row_link = tag ''tr'' [cell ''Acme Corp'', cell ''Sioux Falls'', cell ''1/2/2025'', cell ''120'',
     tag ''td'' [Tag (py ''a'') [(py ''href'', py ''/docs/report.pdf'')]
                   [Str NavigableString (py ''PDF'')]]]"

definition table_link :: node where
  "table_link = tag ''table'' [header_row, row_link]"

definition page_link :: node where
  "page_link = document [table_link]"

definition row_acme :: node where
  "row_acme = tag ''tr'' [tag ''td'' [Str NavigableString (py ''  Acme Corp '' @ [LF])],
     cell ''Sioux Falls'', cell ''120'']"

text \<open>A row with a name that cp1252 has no byte for (it starts with U+0141).\<close>

definition row_lukasz :: node where
  "row_lukasz = tag ''tr'' [tag ''td'' [Str NavigableString (321 # py ''ukasz'')],
     cell ''Nowak'', cell ''Press Agency'']"

definition table_lukasz :: node where
  "table_lukasz = tag ''table'' [header_row, row_ann, row_lukasz, row_bo]"

definition page_lukasz :: node where
  "page_lukasz = document [table_lukasz]"

text \<open>
  A platform whose locale encoding is not UTF-8: cp1252, with the characters it has
  bytes for.
\<close>

definition cp1252 :: "pychar \<Rightarrow> bool" where
  "cp1252 c \<longleftrightarrow> c < 128 \<or> (160 \<le> c \<and> c \<le> 255) \<or>
     c \<in> set [338, 339, 352, 353, 376, 381, 382, 402, 710, 732, 8211, 8212, 8216, 8217,
       8218, 8220, 8221, 8222, 8224, 8225, 8226, 8230, 8240, 8249, 8250, 8364, 8482]"

definition windows :: platform where
  "windows = \<lparr>locale_encoding = py ''cp1252'', locale_encodes = cp1252, linesep = [CR, LF]\<rparr>"


section \<open>The reader undoes the writer\<close>

subsection \<open>Lines\<close>

text \<open>
  One step of \<open>readlines\<close> for each kind of character. The defining equation is
  taken out of the simplifier afterwards: with a case split on the rest of the input
  it would unfold without end.
\<close>

lemma readlines_LF: "readlines cur (LF # cs) = (cur @ [LF]) # readlines [] cs"
  by simp

lemma readlines_CRLF: "readlines cur (CR # LF # cs) = (cur @ [CR, LF]) # readlines [] cs"
  by (simp add: LF_def CR_def)

lemma readlines_CR:
  "cs = [] \<or> hd cs \<noteq> LF \<Longrightarrow> readlines cur (CR # cs) = (cur @ [CR]) # readlines [] cs"
  by (cases cs) (simp_all add: LF_def CR_def)

lemma readlines_char:
  "c \<noteq> LF \<Longrightarrow> c \<noteq> CR \<Longrightarrow> readlines cur (c # cs) = readlines (cur @ [c]) cs"
  by simp

declare readlines.simps(2) [simp del]

lemma readlines_line:
  "readlines cur inp =
     (case readlines [] inp of
        [] \<Rightarrow> (if cur = [] then [] else [cur])
      | l # ls \<Rightarrow> (cur @ l) # ls)"
proof (induction inp arbitrary: cur)
  case Nil
  then show ?case by simp
next
  case (Cons c cs)
  consider (lf) "c = LF" | (crlf) ds where "c = CR" "cs = LF # ds"
    | (cr) "c = CR" "cs = [] \<or> hd cs \<noteq> LF" | (char) "c \<noteq> LF" "c \<noteq> CR"
    by (cases cs) auto
  then show ?case
  proof cases
    case lf
    then show ?thesis by (simp add: readlines_LF)
  next
    case crlf
    then show ?thesis by (simp add: readlines_CRLF)
  next
    case cr
    then show ?thesis by (simp add: readlines_CR)
  next
    case char
    have "readlines cur (c # cs) =
        (case readlines [] cs of [] \<Rightarrow> [cur @ [c]] | l # ls \<Rightarrow> (cur @ c # l) # ls)"
      unfolding readlines_char [OF char] by (subst Cons.IH) (simp split: list.splits)
    moreover have "readlines [] (c # cs) =
        (case readlines [] cs of [] \<Rightarrow> [[c]] | l # ls \<Rightarrow> (c # l) # ls)"
      unfolding readlines_char [OF char] by (subst Cons.IH) (simp split: list.splits)
    ultimately show ?thesis
      by (simp split: list.splits)
  qed
qed

lemma readlines_empty_iff: "readlines [] inp = [] \<longleftrightarrow> inp = []"
proof (cases inp)
  case Nil
  then show ?thesis by simp
next
  case (Cons c cs)
  consider (lf) "c = LF" | (crlf) ds where "c = CR" "cs = LF # ds"
    | (cr) "c = CR" "cs = [] \<or> hd cs \<noteq> LF" | (char) "c \<noteq> LF" "c \<noteq> CR"
    by (cases cs) auto
  then show ?thesis
  proof cases
    case lf
    then show ?thesis using Cons by (simp add: readlines_LF)
  next
    case crlf
    then show ?thesis using Cons by (simp add: readlines_CRLF)
  next
    case cr
    then show ?thesis using Cons by (simp add: readlines_CR)
  next
    case char
    then show ?thesis
      using Cons readlines_line [of "[c]" cs] by (simp add: readlines_char split: list.splits)
  qed
qed

lemma scan_char:
  assumes "c \<noteq> LF" "c \<noteq> CR" "cs \<noteq> []" "parse_process_char r (Ch c) = Inr r'"
  shows "scan r (c # cs) = scan r' cs"
proof -
  obtain l ls where ls: "readlines [] cs = l # ls"
    using assms(3) readlines_empty_iff by (cases "readlines [] cs") auto
  have "readlines [] (c # cs) = (c # l) # ls"
    using assms(1,2) ls readlines_line [of "[c]" cs] by (simp add: readlines_char)
  then show ?thesis
    using assms(4) ls by (simp add: scan_def)
qed

lemma read_lines_end_line:
  "read_lines r (l # readlines [] cs) =
     (case feed r l of Inl e \<Rightarrow> Inl e | Inr r1 \<Rightarrow> end_line r1 cs)"
  unfolding end_line_def scan_def by simp

lemma scan_LF:
  assumes "parse_process_char r (Ch LF) = Inr r'"
  shows "scan r (LF # cs) = end_line r' cs"
  unfolding scan_def [of r] readlines_LF read_lines_end_line using assms by simp

lemma scan_CRLF:
  assumes "parse_process_char r (Ch CR) = Inr r'" "parse_process_char r' (Ch LF) = Inr r''"
  shows "scan r (CR # LF # cs) = end_line r'' cs"
  unfolding scan_def [of r] readlines_CRLF read_lines_end_line using assms by simp

lemma scan_CR:
  assumes "parse_process_char r (Ch CR) = Inr r'" "cs = [] \<or> hd cs \<noteq> LF"
  shows "scan r (CR # cs) = end_line r' cs"
  unfolding scan_def [of r] readlines_CR [OF assms(2)] read_lines_end_line using assms(1) by simp


subsection \<open>The state machine on the writer's output\<close>

lemma chars_distinct:
  "delimiter \<noteq> LF" "delimiter \<noteq> CR" "delimiter \<noteq> quotechar"
  "quotechar \<noteq> LF" "quotechar \<noteq> CR" "quotechar \<noteq> delimiter" "LF \<noteq> CR" "CR \<noteq> LF"
  by (simp_all add: delimiter_def quotechar_def LF_def CR_def)

lemmas parse_defs =
  parse_process_char_def start_field_def parse_save_field_def parse_add_char_def

lemma end_line_IN_QUOTED_FIELD:
  "state r = IN_QUOTED_FIELD \<Longrightarrow> end_line r cs = scan r cs"
  by (simp add: end_line_def parse_process_char_def)

lemma end_line_EAT_CRNL:
  "state r = EAT_CRNL \<Longrightarrow>
   end_line r cs =
     (case scan parse_reset cs of Inl e \<Rightarrow> Inl e | Inr records \<Rightarrow> Inr (rfields r # records))"
  by (simp add: end_line_def parse_process_char_def split: sum.splits)

lemma scan_unquoted:
  assumes "state r = IN_FIELD" "\<not> needs_quotes f" "k \<noteq> []"
  shows "scan r (f @ k) = scan (r\<lparr>field := field r @ f\<rparr>) k"
  using assms
proof (induction f arbitrary: r)
  case Nil
  then show ?case by simp
next
  case (Cons c f)
  from Cons.prems have c: "c \<noteq> delimiter" "c \<noteq> quotechar" "c \<noteq> LF" "c \<noteq> CR"
    and f: "\<not> needs_quotes f"
    by (auto simp: needs_quotes_def)
  have "parse_process_char r (Ch c) = Inr (parse_add_char r c)"
    using Cons.prems(1) c by (simp add: parse_process_char_def)
  then have "scan r ((c # f) @ k) = scan (parse_add_char r c) (f @ k)"
    using c Cons.prems(3) by (simp add: scan_char)
  also have "\<dots> = scan ((parse_add_char r c)\<lparr>field := field (parse_add_char r c) @ f\<rparr>) k"
    using Cons.prems(1,3) f by (intro Cons.IH) (simp_all add: parse_add_char_def)
  finally show ?case by (simp add: parse_add_char_def)
qed

lemma scan_quoted:
  assumes "state r = IN_QUOTED_FIELD" "k \<noteq> []"
  shows "scan r (doublequote f @ quotechar # k) =
         scan (r\<lparr>state := QUOTE_IN_QUOTED_FIELD, field := field r @ f\<rparr>) k"
  using assms
proof (induction "length f" arbitrary: f r rule: less_induct)
  case less
  note st = \<open>state r = IN_QUOTED_FIELD\<close>
  show ?case
  proof (cases f)
    case Nil
    have "parse_process_char r (Ch quotechar) = Inr (r\<lparr>state := QUOTE_IN_QUOTED_FIELD\<rparr>)"
      using st by (simp add: parse_process_char_def)
    then show ?thesis
      using Nil less.prems(2) chars_distinct by (simp add: scan_char)
  next
    case (Cons c f')
    let ?rest = "doublequote f' @ quotechar # k"
    have rest: "?rest \<noteq> []" by simp
    have step: "scan (parse_add_char r c) ?rest =
        scan (r\<lparr>state := QUOTE_IN_QUOTED_FIELD, field := field r @ f\<rparr>) k"
    proof -
      have "scan (parse_add_char r c) ?rest =
          scan ((parse_add_char r c)\<lparr>state := QUOTE_IN_QUOTED_FIELD,
                  field := field (parse_add_char r c) @ f'\<rparr>) k"
        using Cons st less.prems(2) by (intro less.hyps) (simp_all add: parse_add_char_def)
      then show ?thesis using Cons by (simp add: parse_add_char_def)
    qed
    consider (quote) "c = quotechar" | (lf) "c = LF" | (cr) "c = CR"
      | (char) "c \<noteq> quotechar" "c \<noteq> LF" "c \<noteq> CR"
      by blast
    then show ?thesis
    proof cases
      case quote
      have 1: "parse_process_char r (Ch quotechar) = Inr (r\<lparr>state := QUOTE_IN_QUOTED_FIELD\<rparr>)"
        using st by (simp add: parse_process_char_def)
      have 2: "parse_process_char (r\<lparr>state := QUOTE_IN_QUOTED_FIELD\<rparr>) (Ch quotechar) =
          Inr (parse_add_char r c)"
        using st quote by (simp add: parse_process_char_def parse_add_char_def)
      have "scan r (doublequote f @ quotechar # k) = scan r (quotechar # quotechar # ?rest)"
        using Cons quote by simp
      also have "\<dots> = scan (r\<lparr>state := QUOTE_IN_QUOTED_FIELD\<rparr>) (quotechar # ?rest)"
        using 1 chars_distinct by (simp add: scan_char)
      also have "\<dots> = scan (parse_add_char r c) ?rest"
        using 2 chars_distinct by (simp add: scan_char)
      finally show ?thesis using step by simp
    next
      case lf
      have 1: "parse_process_char r (Ch LF) = Inr (parse_add_char r c)"
        using st lf chars_distinct by (simp add: parse_process_char_def)
      have "scan r (doublequote f @ quotechar # k) = scan r (LF # ?rest)"
        using Cons lf chars_distinct by simp
      also have "\<dots> = end_line (parse_add_char r c) ?rest"
        using 1 by (rule scan_LF)
      also have "\<dots> = scan (parse_add_char r c) ?rest"
        using st by (simp add: end_line_IN_QUOTED_FIELD parse_add_char_def)
      finally show ?thesis using step by simp
    next
      case cr
      have 1: "parse_process_char r (Ch CR) = Inr (parse_add_char r c)"
        using st cr chars_distinct by (simp add: parse_process_char_def)
      show ?thesis
      proof (cases "f' \<noteq> [] \<and> hd f' = LF")
        case True
        then obtain f'' where f'': "f' = LF # f''" by (cases f') auto
        let ?rest' = "doublequote f'' @ quotechar # k"
        let ?r' = "parse_add_char (parse_add_char r c) LF"
        have 2: "parse_process_char (parse_add_char r c) (Ch LF) = Inr ?r'"
          using st chars_distinct by (simp add: parse_process_char_def parse_add_char_def)
        have "scan r (doublequote f @ quotechar # k) = scan r (CR # LF # ?rest')"
          using Cons cr f'' chars_distinct by simp
        also have "\<dots> = end_line ?r' ?rest'"
          using 1 2 by (rule scan_CRLF)
        also have "\<dots> = scan ?r' ?rest'"
          using st by (simp add: end_line_IN_QUOTED_FIELD parse_add_char_def)
        also have "\<dots> = scan (?r'\<lparr>state := QUOTE_IN_QUOTED_FIELD, field := field ?r' @ f''\<rparr>) k"
          using Cons f'' st less.prems(2) by (intro less.hyps) (simp_all add: parse_add_char_def)
        finally show ?thesis using Cons f'' by (simp add: parse_add_char_def)
      next
        case False
        then have hd: "?rest = [] \<or> hd ?rest \<noteq> LF"
          using chars_distinct by (cases f') auto
        have "scan r (doublequote f @ quotechar # k) = scan r (CR # ?rest)"
          using Cons cr chars_distinct by simp
        also have "\<dots> = end_line (parse_add_char r c) ?rest"
          using 1 hd by (rule scan_CR)
        also have "\<dots> = scan (parse_add_char r c) ?rest"
          using st by (simp add: end_line_IN_QUOTED_FIELD parse_add_char_def)
        finally show ?thesis using step by simp
      qed
    next
      case char
      have 1: "parse_process_char r (Ch c) = Inr (parse_add_char r c)"
        using st char by (simp add: parse_process_char_def)
      have "scan r (doublequote f @ quotechar # k) = scan r (c # ?rest)"
        using Cons char by simp
      also have "\<dots> = scan (parse_add_char r c) ?rest"
        using 1 char by (simp add: scan_char)
      finally show ?thesis using step by simp
    qed
  qed
qed


text \<open>One field as the writer puts it, followed by a delimiter or by the line end.\<close>

lemma join_append_cases:
  obtains (quoted) "needs_quotes f" "join_append f = quotechar # doublequote f @ [quotechar]"
  | (empty) "f = []" "join_append f = []"
  | (plain) c f' where "\<not> needs_quotes f" "f = c # f'" "join_append f = c # f'"
      "c \<noteq> delimiter" "c \<noteq> quotechar" "c \<noteq> LF" "c \<noteq> CR" "\<not> needs_quotes f'"
proof (cases "needs_quotes f")
  case True
  then show ?thesis using quoted by (simp add: join_append_def)
next
  case False
  show ?thesis
  proof (cases f)
    case Nil
    then show ?thesis using empty by (simp add: join_append_def needs_quotes_def)
  next
    case (Cons c f')
    then show ?thesis using False plain [of c f'] by (auto simp: join_append_def needs_quotes_def)
  qed
qed

lemma scan_field:
  assumes "state r = START_FIELD" "field r = []" "k \<noteq> []"
  shows "\<exists>r'. scan r (join_append f @ k) = scan r' k \<and> field_done (rfields r) f r'"
proof (cases f rule: join_append_cases)
  case quoted
  have 1: "parse_process_char r (Ch quotechar) = Inr (r\<lparr>state := IN_QUOTED_FIELD\<rparr>)"
    using assms(1) chars_distinct by (simp add: parse_defs)
  have "scan r (join_append f @ k) = scan r (quotechar # doublequote f @ quotechar # k)"
    using quoted by simp
  also have "\<dots> = scan (r\<lparr>state := IN_QUOTED_FIELD\<rparr>) (doublequote f @ quotechar # k)"
    using 1 chars_distinct by (simp add: scan_char)
  also have "\<dots> = scan (r\<lparr>state := IN_QUOTED_FIELD\<rparr>
        \<lparr>state := QUOTE_IN_QUOTED_FIELD, field := field (r\<lparr>state := IN_QUOTED_FIELD\<rparr>) @ f\<rparr>) k"
    using assms(3) by (intro scan_quoted) simp_all
  finally show ?thesis
    using assms(2) by (auto simp: field_done_def)
next
  case empty
  then show ?thesis
    using assms by (auto simp: field_done_def)
next
  case (plain c f')
  have 1: "parse_process_char r (Ch c) = Inr ((parse_add_char r c)\<lparr>state := IN_FIELD\<rparr>)"
    using assms(1) plain by (simp add: parse_defs)
  let ?r1 = "(parse_add_char r c)\<lparr>state := IN_FIELD\<rparr>"
  have "scan r (join_append f @ k) = scan r (c # f' @ k)"
    using plain by simp
  also have "\<dots> = scan ?r1 (f' @ k)"
    using 1 plain assms(3) by (simp add: scan_char)
  also have "\<dots> = scan (?r1\<lparr>field := field ?r1 @ f'\<rparr>) k"
    using plain assms(3) by (intro scan_unquoted) simp_all
  finally show ?thesis
    using assms(2) plain by (auto simp: field_done_def parse_add_char_def)
qed

lemma field_done_delimiter:
  assumes "field_done before f r"
  shows "parse_process_char r (Ch delimiter) =
         Inr \<lparr>state = START_FIELD, field = [], rfields = before @ [f]\<rparr>"
  using assms chars_distinct by (auto simp: field_done_def parse_defs)

lemma field_done_CRLF:
  assumes "field_done before f r"
  shows "parse_process_char r (Ch CR) = Inr \<lparr>state = EAT_CRNL, field = [], rfields = before @ [f]\<rparr>"
    and "parse_process_char \<lparr>state = EAT_CRNL, field = [], rfields = before @ [f]\<rparr> (Ch LF) =
         Inr \<lparr>state = EAT_CRNL, field = [], rfields = before @ [f]\<rparr>"
  using assms chars_distinct by (auto simp: field_done_def parse_defs)

lemma scan_fields:
  assumes "row \<noteq> []" "state r = START_FIELD" "field r = []"
  shows "scan r (join_fields row @ CR # LF # rest) =
         (case scan parse_reset rest of
            Inl e \<Rightarrow> Inl e
          | Inr records \<Rightarrow> Inr ((rfields r @ row) # records))"
  using assms
proof (induction row arbitrary: r rule: join_fields.induct)
  case 1
  then show ?case by simp
next
  case (2 f)
  obtain r' where r': "scan r (join_append f @ CR # LF # rest) = scan r' (CR # LF # rest)"
      "field_done (rfields r) f r'"
    using scan_field [OF "2.prems"(2,3), of "CR # LF # rest" f] by auto
  let ?r2 = "\<lparr>state = EAT_CRNL, field = [], rfields = rfields r @ [f]\<rparr>"
  have "scan r' (CR # LF # rest) = end_line ?r2 rest"
    using field_done_CRLF [OF r'(2)] by (rule scan_CRLF)
  then show ?case
    using r'(1) by (simp add: end_line_EAT_CRNL split: sum.splits)
next
  case (3 f g fs)
  let ?k = "delimiter # join_fields (g # fs) @ CR # LF # rest"
  obtain r' where r': "scan r (join_append f @ ?k) = scan r' ?k"
      "field_done (rfields r) f r'"
    using scan_field [OF "3.prems"(2,3), of ?k f] by auto
  let ?r2 = "\<lparr>state = START_FIELD, field = [], rfields = rfields r @ [f]\<rparr>"
  have "scan r' ?k = scan ?r2 (join_fields (g # fs) @ CR # LF # rest)"
    using field_done_delimiter [OF r'(2)] chars_distinct by (simp add: scan_char)
  also have "\<dots> = (case scan parse_reset rest of
            Inl e \<Rightarrow> Inl e
          | Inr records \<Rightarrow> Inr ((rfields ?r2 @ g # fs) # records))"
    by (rule "3.IH") simp_all
  finally show ?case
    using r'(1) by (simp split: sum.splits)
qed


lemma join_append_empty_iff: "join_append f = [] \<longleftrightarrow> f = []"
  by (cases f rule: join_append_cases) (auto simp: needs_quotes_def)

lemma join_fields_empty_iff: "join_fields row = [] \<longleftrightarrow> row = [] \<or> row = [[]]"
  by (induction row rule: join_fields.induct) (simp_all add: join_append_empty_iff)

lemma hd_join_append: "join_append f \<noteq> [] \<Longrightarrow> hd (join_append f) \<noteq> LF \<and> hd (join_append f) \<noteq> CR"
  using chars_distinct by (cases f rule: join_append_cases) auto

lemma hd_join_fields: "join_fields row \<noteq> [] \<Longrightarrow> hd (join_fields row) \<noteq> LF \<and> hd (join_fields row) \<noteq> CR"
proof (induction row rule: join_fields.induct)
  case 1
  then show ?case by simp
next
  case (2 f)
  then show ?case using hd_join_append by simp
next
  case (3 f g fs)
  show ?case
  proof (cases "join_append f = []")
    case True
    then show ?thesis using chars_distinct by simp
  next
    case False
    then show ?thesis using hd_join_append [of f] by simp
  qed
qed

lemma parse_process_char_START_RECORD:
  assumes "state r = START_RECORD" "c \<noteq> LF" "c \<noteq> CR"
  shows "parse_process_char r (Ch c) = parse_process_char (r\<lparr>state := START_FIELD\<rparr>) (Ch c)"
  using assms by (simp add: parse_process_char_def)

lemma scan_START_RECORD:
  assumes "state r = START_RECORD" "inp \<noteq> []" "hd inp \<noteq> LF" "hd inp \<noteq> CR" "tl inp \<noteq> []"
  shows "scan r inp = scan (r\<lparr>state := START_FIELD\<rparr>) inp"
proof -
  obtain c cs where inp: "inp = c # cs" "c \<noteq> LF" "c \<noteq> CR" "cs \<noteq> []"
    using assms by (cases inp) auto
  obtain r' where r': "parse_process_char (r\<lparr>state := START_FIELD\<rparr>) (Ch c) = Inr r'"
    by (simp add: parse_process_char_def)
  then have "parse_process_char r (Ch c) = Inr r'"
    using parse_process_char_START_RECORD [OF assms(1) inp(2,3)] by simp
  then show ?thesis
    using r' inp by (simp add: scan_char)
qed

lemma scan_csv_line:
  "scan parse_reset (csv_line row @ rest) =
     (case scan parse_reset rest of Inl e \<Rightarrow> Inl e | Inr records \<Rightarrow> Inr (row # records))"
proof -
  consider (none) "row = []" | (one) "row = [[]]" | (more) "join_fields row \<noteq> []"
    using join_fields_empty_iff by blast
  then show ?thesis
  proof cases
    case none
    let ?r = "parse_reset\<lparr>state := EAT_CRNL\<rparr>"
    have "parse_process_char parse_reset (Ch CR) = Inr ?r" "parse_process_char ?r (Ch LF) = Inr ?r"
      by (simp_all add: parse_process_char_def parse_reset_def)
    then have "scan parse_reset (CR # LF # rest) = end_line ?r rest"
      by (rule scan_CRLF)
    then show ?thesis
      using none by (simp add: csv_line_def lineterminator_def end_line_EAT_CRNL parse_reset_def
          split: sum.splits)
  next
    case one
    let ?r1 = "parse_reset\<lparr>state := IN_QUOTED_FIELD\<rparr>"
    let ?r2 = "parse_reset\<lparr>state := QUOTE_IN_QUOTED_FIELD\<rparr>"
    let ?r3 = "\<lparr>state = EAT_CRNL, field = [], rfields = [[]]\<rparr>"
    have 1: "parse_process_char parse_reset (Ch quotechar) = Inr ?r1"
      using chars_distinct by (simp add: parse_defs parse_reset_def)
    have 2: "parse_process_char ?r1 (Ch quotechar) = Inr ?r2"
      by (simp add: parse_defs parse_reset_def)
    have 3: "parse_process_char ?r2 (Ch CR) = Inr ?r3" "parse_process_char ?r3 (Ch LF) = Inr ?r3"
      using chars_distinct by (simp_all add: parse_defs parse_reset_def)
    have "scan parse_reset (quotechar # quotechar # CR # LF # rest) =
        scan ?r1 (quotechar # CR # LF # rest)"
      using 1 chars_distinct by (simp add: scan_char)
    also have "\<dots> = scan ?r2 (CR # LF # rest)"
      using 2 chars_distinct by (simp add: scan_char)
    also have "\<dots> = end_line ?r3 rest"
      using 3 by (rule scan_CRLF)
    finally show ?thesis
      using one by (simp add: csv_line_def lineterminator_def end_line_EAT_CRNL join_append_def
          needs_quotes_def split: sum.splits)
  next
    case more
    then have row: "row \<noteq> []" by auto
    let ?inp = "join_fields row @ CR # LF # rest"
    have "?inp \<noteq> []" "hd ?inp \<noteq> LF" "hd ?inp \<noteq> CR" "tl ?inp \<noteq> []"
      using more hd_join_fields [OF more] by (cases "join_fields row"; simp)+
    then have "scan parse_reset ?inp = scan (parse_reset\<lparr>state := START_FIELD\<rparr>) ?inp"
      by (intro scan_START_RECORD) (simp_all add: parse_reset_def)
    also have "\<dots> = (case scan parse_reset rest of
            Inl e \<Rightarrow> Inl e
          | Inr records \<Rightarrow> Inr ((rfields (parse_reset\<lparr>state := START_FIELD\<rparr>) @ row) # records))"
      using row by (intro scan_fields) (simp_all add: parse_reset_def)
    finally show ?thesis
      using more by (simp add: csv_line_def lineterminator_def parse_reset_def split: sum.splits)
  qed
qed

lemma csv_reader_csv_line:
  "csv_reader (csv_line row @ rest) =
     (case csv_reader rest of Inl e \<Rightarrow> Inl e | Inr records \<Rightarrow> Inr (row # records))"
  using scan_csv_line [of row rest] by (simp add: scan_def csv_reader_def)

lemma csv_reader_Nil: "csv_reader [] = Inr []"
  by (simp add: csv_reader_def parse_reset_def)

lemma csv_reader_lines: "csv_reader (concat (map csv_line rows)) = Inr rows"
  by (induction rows) (simp_all add: csv_reader_Nil csv_reader_csv_line)

section \<open>The two notebooks\<close>

subsection \<open>What the file's encoding takes\<close>

lemma can_encode_ascii: "c < 128 \<Longrightarrow> can_encode os enc c"
  by (simp add: can_encode_def utf8_encodes_def)

lemma can_encode_specials:
  "can_encode os enc delimiter" "can_encode os enc quotechar"
  "can_encode os enc CR" "can_encode os enc LF"
  by (simp_all add: can_encode_ascii delimiter_def quotechar_def CR_def LF_def)

lemma list_all_doublequote:
  "P quotechar \<Longrightarrow> list_all P (doublequote f) = list_all P f"
  by (induction f) auto

lemma list_all_join_append:
  "P quotechar \<Longrightarrow> list_all P (join_append f) = list_all P f"
  by (simp add: join_append_def list_all_doublequote)

lemma list_all_join_fields:
  "P quotechar \<Longrightarrow> P delimiter \<Longrightarrow> list_all P (join_fields r) = list_all (list_all P) r"
  by (induction r rule: join_fields.induct) (simp_all add: list_all_join_append)

lemma list_all_csv_line:
  assumes "P quotechar" "P delimiter" "P CR" "P LF"
  shows "list_all P (csv_line r) = list_all (list_all P) r"
proof (cases "r \<noteq> [] \<and> join_fields r = []")
  case True
  then have "r = [[]]"
    using join_fields_empty_iff [of r] by blast
  then show ?thesis
    using assms by (simp add: csv_line_def lineterminator_def join_append_def needs_quotes_def)
next
  case False
  then show ?thesis
    using assms list_all_join_fields [of P r]
    by (auto simp add: csv_line_def lineterminator_def Let_def)
qed

lemma csv_line_encodable:
  "list_all (can_encode os enc) (csv_line r) = encodable os enc r"
  unfolding encodable_def by (rule list_all_csv_line) (rule can_encode_specials)+

lemma writer_writerow_eq:
  assumes "newline f = Some []"
  shows "writer_writerow os f r =
     (if encodable os (file_encoding os f) r then Inr (writerow f r) else Inl UnicodeEncodeError)"
  using assms
  by (simp add: writer_writerow_def outfile_write_def newline_translated_def writerow_def
      csv_line_encodable)

lemma writerow_same_file:
  "newline (writerow f r) = newline f" "file_encoding os (writerow f r) = file_encoding os f"
  "encoding (writerow f r) = encoding f" "written (writerow f r) = written f @ csv_line r"
  by (simp_all add: writerow_def file_write_def file_encoding_def)


lemma writerows_text:
  "writerows f rows = f\<lparr>written := written f @ concat (map csv_line rows)\<rparr>"
  by (induction rows arbitrary: f) (simp_all add: writerow_def file_write_def)


lemma ascii_encodable:
  "list_all (list_all (\<lambda>c. c < 128)) r \<Longrightarrow> encodable os enc r"
  unfolding encodable_def
  by (induction r) (auto simp: list_all_iff can_encode_ascii)

lemma headers_encodable: "encodable os enc headers" "encodable os enc csv_headers"
  by (rule ascii_encodable, simp add: headers_def csv_headers_def py_def)+

subsection \<open>The loops and the runs\<close>

lemma senate_record_ok: "has_cells row \<Longrightarrow> senate_record row = Inr (senate_fields row)"
  by (auto simp add: has_cells_def senate_record_def senate_fields_def getitem_def Let_def)

lemma senate_record_short: "\<not> has_cells row \<Longrightarrow> senate_record row = Inl IndexError"
  by (auto simp add: has_cells_def senate_record_def getitem_def Let_def)

text \<open>One turn of the loop on the Senate file: a row that is fine, and a row that is not.\<close>

lemma senate_loop_step:
  assumes "newline f = Some []" "encoding f = None"
  shows "row_ok os row \<Longrightarrow>
           senate_loop os f (row # rows) = senate_loop os (writerow f (senate_fields row)) rows"
    and "\<not> row_ok os row \<Longrightarrow> senate_loop os f (row # rows) = (Some (row_error row), f)"
proof -
  have enc: "file_encoding os f = locale_encoding os"
    using assms(2) by (simp add: file_encoding_def)
  show "row_ok os row \<Longrightarrow>
      senate_loop os f (row # rows) = senate_loop os (writerow f (senate_fields row)) rows"
    using assms(1) enc by (simp add: row_ok_def senate_record_ok writer_writerow_eq)
  show "\<not> row_ok os row \<Longrightarrow> senate_loop os f (row # rows) = (Some (row_error row), f)"
    using assms(1) enc
    by (cases "has_cells row")
      (simp_all add: row_ok_def row_error_def senate_record_ok senate_record_short
        writer_writerow_eq)
qed

declare senate_loop.simps(2) [simp del]

lemma senate_loop_ok:
  assumes "newline f = Some []" "encoding f = None" "list_all (row_ok os) rows"
  shows "senate_loop os f rows =
     (None, f\<lparr>written := written f @ concat (map csv_line (map senate_fields rows))\<rparr>)"
  using assms
proof (induction rows arbitrary: f)
  case Nil
  then show ?case by simp
next
  case (Cons row rows)
  have "senate_loop os f (row # rows) = senate_loop os (writerow f (senate_fields row)) rows"
    using Cons.prems by (simp add: senate_loop_step)
  also have "\<dots> = (None, (writerow f (senate_fields row))
      \<lparr>written := written (writerow f (senate_fields row)) @
          concat (map csv_line (map senate_fields rows))\<rparr>)"
    using Cons.prems by (intro Cons.IH) (simp_all add: writerow_same_file)
  finally show ?case
    by (simp add: writerow_def file_write_def)
qed

lemma senate_loop_stop:
  assumes "newline f = Some []" "encoding f = None"
    and "list_all (row_ok os) pre" "\<not> row_ok os bad"
  shows "senate_loop os f (pre @ bad # post) =
     (Some (row_error bad),
      f\<lparr>written := written f @ concat (map csv_line (map senate_fields pre))\<rparr>)"
  using assms
proof (induction pre arbitrary: f)
  case Nil
  then show ?case by (simp add: senate_loop_step)
next
  case (Cons row pre)
  have "senate_loop os f ((row # pre) @ bad # post) =
      senate_loop os (writerow f (senate_fields row)) (pre @ bad # post)"
    using Cons.prems by (simp add: senate_loop_step)
  also have "\<dots> = (Some (row_error bad), (writerow f (senate_fields row))
      \<lparr>written := written (writerow f (senate_fields row)) @
          concat (map csv_line (map senate_fields pre))\<rparr>)"
    using Cons.prems by (intro Cons.IH) (simp_all add: writerow_same_file)
  finally show ?case
    by (simp add: writerow_def file_write_def)
qed

lemma senate_loop_snd:
  assumes "newline f = Some []" "encoding f = None"
  shows "snd (senate_loop os f rows) =
     f\<lparr>written := written f @
          concat (map csv_line (map senate_fields (takeWhile (row_ok os) rows)))\<rparr>"
  using assms
proof (induction rows arbitrary: f)
  case Nil
  then show ?case by simp
next
  case (Cons row rows)
  show ?case
  proof (cases "row_ok os row")
    case True
    have "snd (senate_loop os (writerow f (senate_fields row)) rows) =
        (writerow f (senate_fields row))
        \<lparr>written := written (writerow f (senate_fields row)) @
          concat (map csv_line (map senate_fields (takeWhile (row_ok os) rows)))\<rparr>"
      using Cons.prems by (intro Cons.IH) (simp_all add: writerow_same_file)
    then show ?thesis
      using True Cons.prems by (simp add: senate_loop_step writerow_def file_write_def)
  next
    case False
    then show ?thesis
      using Cons.prems by (simp add: senate_loop_step)
  qed
qed

lemma sd_loop_same: "sd_loop data_to_write rows = data_to_write"
  by (induction rows) simp_all

lemmas char_defs = py_def LF_def CR_def delimiter_def quotechar_def lineterminator_def

lemma csv_line_headers: "csv_line headers = py ''first,last,affiliation'' @ [CR, LF]"
  by (simp add: headers_def csv_line_def join_append_def needs_quotes_def char_defs)

lemma csv_line_csv_headers:
  "csv_line csv_headers = py ''company,location,date,employees_laid_off,url'' @ [CR, LF]"
  by (simp add: csv_headers_def csv_line_def join_append_def needs_quotes_def char_defs)

text \<open>The Senate file once the header line is in it.\<close>

lemma senate_header_written:
  "writer_writerow os (open_w (Some []) None) headers =
     Inr \<lparr>newline = Some [], encoding = None, written = csv_line headers\<rparr>"
  by (simp add: writer_writerow_eq open_w_def headers_encodable writerow_def file_write_def)

lemma senate_pipeline_table:
  assumes "find_first (py ''table'') soup = Some table"
  shows "senate_pipeline os (Inr soup) fs =
     (fst (senate_loop os \<lparr>newline = Some [], encoding = None, written = csv_line headers\<rparr>
             (drop 1 (find_all (py ''tr'') table))),
      fs(senate_csv \<mapsto>
         snd (senate_loop os \<lparr>newline = Some [], encoding = None, written = csv_line headers\<rparr>
                (drop 1 (find_all (py ''tr'') table)))))"
  using assms
  by (simp add: senate_pipeline_def senate_header_written Let_def split: prod.splits)

lemma senate_file_rows:
  assumes "find_first (py ''table'') soup = Some table"
  shows "snd (senate_pipeline os (Inr soup) fs) senate_csv =
     Some \<lparr>newline = Some [], encoding = None,
       written = concat (map csv_line (headers #
         map senate_fields (takeWhile (row_ok os) (drop 1 (find_all (py ''tr'') table)))))\<rparr>"
  using senate_pipeline_table [OF assms, of os fs]
  by (simp add: senate_loop_snd)

lemma length_senate_fields: "length (senate_fields row) = 3"
  by (simp add: senate_fields_def)

lemma sd_write_Nil:
  "sd_write os [] fs =
     (None, fs(sd_csv \<mapsto> \<lparr>newline = Some [], encoding = Some (py ''utf-8''),
                   written = csv_line csv_headers\<rparr>))"
  by (simp add: sd_write_def writer_writerow_eq open_w_def headers_encodable writerow_def
      file_write_def)

lemma sd_pipeline_table:
  assumes "find_first (py ''table'') soup = Some table"
  shows "sd_pipeline os (Inr soup) fs =
     (None, fs(sd_csv \<mapsto> \<lparr>newline = Some [], encoding = Some (py ''utf-8''),
                   written = csv_line csv_headers\<rparr>))"
  using assms by (simp add: sd_pipeline_def sd_loop_same sd_write_Nil)

lemma no_table_pipelines:
  assumes "find_first (py ''table'') soup = None"
  shows "senate_pipeline os (Inr soup) fs = (Some AttributeError, fs)"
    and "sd_pipeline os (Inr soup) fs = (Some AttributeError, fs)"
  using assms by (simp_all add: senate_pipeline_def sd_pipeline_def)

subsection \<open>The sample pages\<close>

text \<open>What it takes to evaluate the operations on a sample page.\<close>

lemmas page_defs =
  document_def cell_def tag_def header_row_def find_first_def find_all_def
  interesting_string_types_def py_def

lemmas strip_defs = strip_def lstrip_def rstrip_def isspace_def

lemma has_cells_rows:
  "has_cells row_ann" "has_cells row_bo" "\<not> has_cells row_short" "has_cells row_lukasz"
  by (simp_all add: has_cells_def row_ann_def row_bo_def row_short_def row_lukasz_def page_defs)

lemma senate_fields_rows:
  "senate_fields row_ann = [py ''Ann'', py ''Lee'', py ''Acme, Inc.'']"
  "senate_fields row_bo = [py ''Bo'', py ''Diaz'', py ''The Gazette'']"
  "senate_fields row_lukasz = [321 # py ''ukasz'', py ''Nowak'', py ''Press Agency'']"
  by (simp_all add: senate_fields_def row_ann_def row_bo_def row_lukasz_def page_defs
      strip_defs LF_def)

lemma row_ok_rows:
  "row_ok windows row_ann" "row_ok windows row_bo" "\<not> row_ok windows row_short"
  "\<not> row_ok windows row_lukasz"
  by (simp_all add: row_ok_def has_cells_rows senate_fields_rows encodable_def can_encode_def
      windows_def cp1252_def py_def)

lemma find_tables:
  "find_first (py ''table'') page_two_rows = Some table_two_rows"
  "find_first (py ''table'') page_short_row = Some table_short_row"
  "find_first (py ''table'') page_partial = Some table_partial"
  "find_first (py ''table'') page_link = Some table_link"
  "find_first (py ''table'') page_no_table = None"
  "find_first (py ''table'') page_empty = None"
  "find_first (py ''table'') page_lukasz = Some table_lukasz"
  by (simp_all add: page_two_rows_def table_two_rows_def page_short_row_def table_short_row_def
      page_partial_def table_partial_def page_link_def table_link_def page_no_table_def
      page_empty_def page_lukasz_def table_lukasz_def row_ann_def row_bo_def row_short_def
      row_link_def row_lukasz_def page_defs)

lemma find_rows:
  "find_all (py ''tr'') table_two_rows = [header_row, row_ann, row_bo]"
  "find_all (py ''tr'') table_short_row = [header_row, row_short]"
  "find_all (py ''tr'') table_partial = [header_row, row_ann, row_short, row_bo]"
  "find_all (py ''tr'') table_link = [header_row, row_link]"
  "find_all (py ''tr'') table_lukasz = [header_row, row_ann, row_lukasz, row_bo]"
  by (simp_all add: table_two_rows_def table_short_row_def table_partial_def table_link_def
      table_lukasz_def row_ann_def row_bo_def row_short_def row_link_def row_lukasz_def
      page_defs)

subsection \<open>What strip removes\<close>

lemma rstrip_split: "t = rstrip t @ rev (takeWhile isspace (rev t))"
proof -
  have "rstrip t @ rev (takeWhile isspace (rev t)) =
      rev (takeWhile isspace (rev t) @ dropWhile isspace (rev t))"
    by (simp only: rstrip_def rev_append)
  also have "\<dots> = t"
    by (simp only: takeWhile_dropWhile_id rev_rev_ident)
  finally show ?thesis by simp
qed

lemma strip_split:
  "s = takeWhile isspace s @ strip s @ rev (takeWhile isspace (rev (lstrip s)))"
proof -
  have "s = takeWhile isspace s @ lstrip s"
    by (simp add: lstrip_def)
  also have "lstrip s = strip s @ rev (takeWhile isspace (rev (lstrip s)))"
    unfolding strip_def by (rule rstrip_split)
  finally show ?thesis .
qed

lemma last_dropWhile: "dropWhile P xs \<noteq> [] \<Longrightarrow> last (dropWhile P xs) = last xs"
  by (induction xs) (auto split: if_splits)

lemma strip_ends:
  assumes "strip s \<noteq> []"
  shows "\<not> isspace (hd (strip s))" and "\<not> isspace (last (strip s))"
proof -
  let ?t = "lstrip s"
  let ?d = "dropWhile isspace (rev ?t)"
  have d: "?d \<noteq> []"
    using assms by (simp add: strip_def rstrip_def)
  then have t: "?t \<noteq> []"
    by auto
  have "last (strip s) = hd ?d"
    using d by (simp add: strip_def rstrip_def last_rev)
  then show "\<not> isspace (last (strip s))"
    using d hd_dropWhile [of isspace "rev ?t"] by simp
  have "hd (strip s) = last ?d"
    using d by (simp add: strip_def rstrip_def hd_rev)
  also have "\<dots> = last (rev ?t)"
    using d by (rule last_dropWhile)
  also have "\<dots> = hd ?t"
    using t by (simp add: last_rev)
  finally show "\<not> isspace (hd (strip s))"
    using t hd_dropWhile [of isspace s] by (simp add: lstrip_def)
qed

section \<open>The claims\<close>

text \<open>
  C1 (as amended). For every page whose table has a leading header row followed by N
  data rows, each of them with at least three \<open>td\<close> cells whose stripped text the
  platform's locale encoding can encode (the Senate file is opened without an
  encoding), the Senate notebook ends normally and writes a CSV that holds the fixed
  header row first and then exactly N data rows, one per data row of the table and
  in the table's order: read back, the file is the header followed by the stripped
  first three cells of each row.
\<close>

theorem senate_one_row_per_data_row:
  assumes "find_first (py ''table'') soup = Some table"
    and "find_all (py ''tr'') table = hdr # data_rows"
    and "list_all (row_ok os) data_rows"
  shows "senate_pipeline os (Inr soup) fs =
           (None, fs(senate_csv \<mapsto> \<lparr>newline = Some [], encoding = None,
              written = concat (map csv_line (headers # map senate_fields data_rows))\<rparr>))
         \<and> csv_reader (concat (map csv_line (headers # map senate_fields data_rows))) =
             Inr (headers # map senate_fields data_rows)
         \<and> length (map senate_fields data_rows) = length data_rows"
proof -
  have "drop 1 (find_all (py ''tr'') table) = data_rows"
    using assms(2) by simp
  moreover have "senate_loop os \<lparr>newline = Some [], encoding = None, written = csv_line headers\<rparr>
      data_rows =
      (None, \<lparr>newline = Some [], encoding = None, written = csv_line headers\<rparr>
         \<lparr>written := written \<lparr>newline = Some [], encoding = None, written = csv_line headers\<rparr> @
             concat (map csv_line (map senate_fields data_rows))\<rparr>)"
    using assms(3) by (intro senate_loop_ok) simp_all
  ultimately have "senate_pipeline os (Inr soup) fs =
      (None, fs(senate_csv \<mapsto> \<lparr>newline = Some [], encoding = None,
         written = concat (map csv_line (headers # map senate_fields data_rows))\<rparr>))"
    using senate_pipeline_table [OF assms(1), of os fs] by simp
  then show ?thesis
    using csv_reader_lines [of "headers # map senate_fields data_rows"] by simp
qed

theorem senate_one_row_per_data_row_witness:
  "find_first (py ''table'') page_two_rows = Some table_two_rows
   \<and> find_all (py ''tr'') table_two_rows = header_row # [row_ann, row_bo]
   \<and> list_all (row_ok windows) [row_ann, row_bo]
   \<and> senate_pipeline windows (Inr page_two_rows) no_files =
       (None, no_files(senate_csv \<mapsto> \<lparr>newline = Some [], encoding = None,
          written = concat (map csv_line
            [headers, [py ''Ann'', py ''Lee'', py ''Acme, Inc.''],
             [py ''Bo'', py ''Diaz'', py ''The Gazette'']])\<rparr>))
   \<and> csv_reader (concat (map csv_line
            [headers, [py ''Ann'', py ''Lee'', py ''Acme, Inc.''],
             [py ''Bo'', py ''Diaz'', py ''The Gazette'']])) =
       Inr [headers, [py ''Ann'', py ''Lee'', py ''Acme, Inc.''],
            [py ''Bo'', py ''Diaz'', py ''The Gazette'']]"
proof -
  have 1: "find_first (py ''table'') page_two_rows = Some table_two_rows"
    by (rule find_tables)
  have 2: "find_all (py ''tr'') table_two_rows = header_row # [row_ann, row_bo]"
    by (simp add: find_rows)
  have 3: "list_all (row_ok windows) [row_ann, row_bo]"
    by (simp add: row_ok_rows)
  show ?thesis
    using senate_one_row_per_data_row [OF 1 2 3, of no_files] 1 2 3
    by (simp add: senate_fields_rows)
qed

text \<open>
  Without the condition on the cells the statement fails: a table of a header row and
  one data row of two cells makes \<open>cells[2]\<close> raise, and the file, opened before the
  loop, is left with the header line and no data row.
\<close>

theorem senate_short_row_counterexample:
  "find_first (py ''table'') page_short_row = Some table_short_row
   \<and> find_all (py ''tr'') table_short_row = [header_row, row_short]
   \<and> senate_pipeline windows (Inr page_short_row) no_files =
       (Some IndexError, no_files(senate_csv \<mapsto> \<lparr>newline = Some [], encoding = None,
          written = py ''first,last,affiliation'' @ [CR, LF]\<rparr>))
   \<and> csv_reader (py ''first,last,affiliation'' @ [CR, LF]) = Inr [headers]"
proof -
  have "senate_loop windows \<lparr>newline = Some [], encoding = None, written = csv_line headers\<rparr>
      [row_short] =
      (Some (row_error row_short),
       \<lparr>newline = Some [], encoding = None, written = csv_line headers\<rparr>)"
    by (rule senate_loop_step) (simp_all add: row_ok_rows)
  then have "senate_pipeline windows (Inr page_short_row) no_files =
      (Some IndexError, no_files(senate_csv \<mapsto>
         \<lparr>newline = Some [], encoding = None, written = csv_line headers\<rparr>))"
    using senate_pipeline_table [OF find_tables(2), of windows no_files]
    by (simp add: find_rows row_error_def has_cells_rows)
  moreover have "csv_reader (py ''first,last,affiliation'' @ [CR, LF]) = Inr [headers]"
    using csv_reader_lines [of "[headers]"] by (simp add: csv_line_headers)
  ultimately show ?thesis
    by (simp add: find_tables find_rows csv_line_headers)
qed

text \<open>
  C2 (as amended). When the page has no \<open>table\<close> element, \<open>soup.find('table')\<close>
  returns \<open>None\<close>, and both notebooks then end with the \<open>AttributeError\<close> that the
  call \<open>table.find_all('tr')\<close> on \<open>None\<close> raises. This happens before the output
  file is opened: the file system is as it was.
\<close>

theorem no_table_raises_AttributeError:
  assumes "find_all (py ''table'') soup = []"
  shows "find_first (py ''table'') soup = None
         \<and> senate_pipeline os (Inr soup) fs = (Some AttributeError, fs)
         \<and> sd_pipeline os (Inr soup) fs = (Some AttributeError, fs)"
proof -
  have "find_first (py ''table'') soup = None"
    using assms by (simp add: find_first_def)
  then show ?thesis
    using no_table_pipelines by simp
qed

theorem no_table_raises_AttributeError_witness:
  "find_all (py ''table'') page_empty = []
   \<and> find_first (py ''table'') page_empty = None
   \<and> senate_pipeline windows (Inr page_empty) no_files = (Some AttributeError, no_files)
   \<and> sd_pipeline windows (Inr page_empty) no_files = (Some AttributeError, no_files)"
proof -
  have 1: "find_all (py ''table'') page_empty = []"
    by (simp add: page_empty_def page_defs)
  show ?thesis
    using no_table_raises_AttributeError [OF 1, of windows no_files] 1 by simp
qed

text \<open>
  No condition of its own is signalled for the missing table: on a page that holds
  only a paragraph both runs end with \<open>AttributeError\<close>.
\<close>

theorem no_table_counterexample:
  "find_all (py ''table'') page_no_table = []
   \<and> fst (senate_pipeline windows (Inr page_no_table) no_files) = Some AttributeError
   \<and> fst (sd_pipeline windows (Inr page_no_table) no_files) = Some AttributeError"
  by (simp add: no_table_pipelines find_tables) (simp add: page_no_table_def page_defs)

text \<open>
  C3. Every record the Senate loop body produces has as many fields as \<open>headers\<close>,
  three, the i-th field being the stripped text of the i-th cell; and whenever a
  notebook has opened its output file, every row read back from it, the header
  included, has as many fields as that notebook's header list (three for the Senate
  file, also when the run was cut short, five for the South Dakota file).
\<close>

theorem written_rows_match_headers:
  assumes "find_first (py ''table'') soup = Some table"
  shows "length headers = 3 \<and> length csv_headers = 5
    \<and> (case senate_record row of Inl e \<Rightarrow> True
        | Inr r \<Rightarrow> length r = length headers \<and> r = senate_fields row)
    \<and> (case snd (senate_pipeline os (Inr soup) fs) senate_csv of None \<Rightarrow> False
        | Some f \<Rightarrow>
            (case csv_reader (written f) of Inl e \<Rightarrow> False
             | Inr rows \<Rightarrow> list_all (\<lambda>r. length r = length headers) rows))
    \<and> (case snd (sd_pipeline os (Inr soup) fs) sd_csv of None \<Rightarrow> False
        | Some f \<Rightarrow>
            (case csv_reader (written f) of Inl e \<Rightarrow> False
             | Inr rows \<Rightarrow> list_all (\<lambda>r. length r = length csv_headers) rows))"
proof -
  have h: "length headers = 3" "length csv_headers = 5"
    by (simp_all add: headers_def csv_headers_def)
  have rec: "case senate_record row of Inl e \<Rightarrow> True
      | Inr r \<Rightarrow> length r = length headers \<and> r = senate_fields row"
    using senate_record_ok [of row] senate_record_short [of row] h
    by (cases "has_cells row") (simp_all add: length_senate_fields)
  let ?rows = "headers #
     map senate_fields (takeWhile (row_ok os) (drop 1 (find_all (py ''tr'') table)))"
  have "list_all (\<lambda>r. length r = length headers) ?rows"
    using h by (simp add: list_all_iff length_senate_fields)
  then have senate: "case snd (senate_pipeline os (Inr soup) fs) senate_csv of None \<Rightarrow> False
        | Some f \<Rightarrow>
            (case csv_reader (written f) of Inl e \<Rightarrow> False
             | Inr rows \<Rightarrow> list_all (\<lambda>r. length r = length headers) rows)"
    using senate_file_rows [OF assms, of os fs] csv_reader_lines [of ?rows] by simp
  have sd: "case snd (sd_pipeline os (Inr soup) fs) sd_csv of None \<Rightarrow> False
        | Some f \<Rightarrow>
            (case csv_reader (written f) of Inl e \<Rightarrow> False
             | Inr rows \<Rightarrow> list_all (\<lambda>r. length r = length csv_headers) rows)"
    using sd_pipeline_table [OF assms, of os fs] csv_reader_lines [of "[csv_headers]"] by simp
  show ?thesis
    using h rec senate sd by blast
qed

theorem written_rows_match_headers_witness:
  "find_first (py ''table'') page_partial = Some table_partial
   \<and> senate_record row_ann = Inr [py ''Ann'', py ''Lee'', py ''Acme, Inc.'']
   \<and> length headers = 3 \<and> length csv_headers = 5
   \<and> (case senate_record row_ann of Inl e \<Rightarrow> True
        | Inr r \<Rightarrow> length r = length headers \<and> r = senate_fields row_ann)
    \<and> (case snd (senate_pipeline windows (Inr page_partial) no_files) senate_csv of
          None \<Rightarrow> False
        | Some f \<Rightarrow>
            (case csv_reader (written f) of Inl e \<Rightarrow> False
             | Inr rows \<Rightarrow> list_all (\<lambda>r. length r = length headers) rows))
    \<and> (case snd (sd_pipeline windows (Inr page_partial) no_files) sd_csv of None \<Rightarrow> False
        | Some f \<Rightarrow>
            (case csv_reader (written f) of Inl e \<Rightarrow> False
             | Inr rows \<Rightarrow> list_all (\<lambda>r. length r = length csv_headers) rows))"
proof -
  have 1: "find_first (py ''table'') page_partial = Some table_partial"
    by (rule find_tables)
  have 2: "senate_record row_ann = Inr [py ''Ann'', py ''Lee'', py ''Acme, Inc.'']"
    using senate_record_ok [OF has_cells_rows(1)] by (simp add: senate_fields_rows)
  show ?thesis
    using written_rows_match_headers [OF 1, of row_ann windows no_files] 1 2 by blast
qed






text \<open>
  C6. The field taken from a data cell is the cell's text with the whitespace at both
  ends removed: for a row with at least three cells the record is the stripped text
  of the first three; a text is its leading whitespace, its stripped text and its
  trailing whitespace, in this order; a stripped text that is not empty neither
  starts nor ends with whitespace; and the text of two spaces, \<open>Acme Corp\<close>, a space
  and a line feed is stripped to \<open>Acme Corp\<close>.
\<close>

theorem cell_text_is_stripped:
  assumes "3 \<le> length (find_all (py ''td'') row)"
  shows "senate_record row =
           Inr [strip (get_text (find_all (py ''td'') row ! 0)),
                strip (get_text (find_all (py ''td'') row ! 1)),
                strip (get_text (find_all (py ''td'') row ! 2))]
    \<and> s = takeWhile isspace s @ strip s @ rev (takeWhile isspace (rev (lstrip s)))
    \<and> (strip s = [] \<or> (\<not> isspace (hd (strip s)) \<and> \<not> isspace (last (strip s))))
    \<and> strip (py ''  Acme Corp '' @ [LF]) = py ''Acme Corp''"
proof -
  have "senate_record row = Inr (senate_fields row)"
    using assms by (simp add: senate_record_ok has_cells_def)
  moreover have "strip (py ''  Acme Corp '' @ [LF]) = py ''Acme Corp''"
    by (simp add: strip_defs py_def LF_def)
  ultimately show ?thesis
    using strip_split [of s] strip_ends [of s] by (auto simp: senate_fields_def)
qed

theorem cell_text_is_stripped_witness:
  "3 \<le> length (find_all (py ''td'') row_acme)
   \<and> get_text (find_all (py ''td'') row_acme ! 0) = py ''  Acme Corp '' @ [LF]
   \<and> senate_record row_acme = Inr [py ''Acme Corp'', py ''Sioux Falls'', py ''120'']
   \<and> py ''  Acme Corp '' @ [LF] = py ''  '' @ py ''Acme Corp'' @ py '' '' @ [LF]
   \<and> strip (py ''  Acme Corp '' @ [LF]) = py ''Acme Corp''"
proof -
  have 1: "3 \<le> length (find_all (py ''td'') row_acme)"
    by (simp add: row_acme_def page_defs)
  have 2: "get_text (find_all (py ''td'') row_acme ! 0) = py ''  Acme Corp '' @ [LF]"
    by (simp add: row_acme_def page_defs)
  have 3: "[strip (get_text (find_all (py ''td'') row_acme ! 0)),
            strip (get_text (find_all (py ''td'') row_acme ! 1)),
            strip (get_text (find_all (py ''td'') row_acme ! 2))] =
           [py ''Acme Corp'', py ''Sioux Falls'', py ''120'']"
    by (simp add: row_acme_def page_defs strip_defs LF_def)
  have 4: "py ''  Acme Corp '' @ [LF] = py ''  '' @ py ''Acme Corp'' @ py '' '' @ [LF]"
    by (simp add: py_def)
  show ?thesis
    using cell_text_is_stripped [OF 1, of "py ''  Acme Corp '' @ [LF]"] 1 2 3 4 by simp
qed

text \<open>
  C7. The South Dakota notebook resolves no link: its loop collects nothing, so for
  every page with a table the file read back is the header row alone, with no URL
  field for any row, whether the row holds a link or not. The instance is a table
  whose data row has a link to \<open>/docs/report.pdf\<close>.
\<close>

theorem sd_writes_no_url:
  assumes "find_first (py ''table'') soup = Some table"
  shows "sd_loop [] (find_all (py ''tr'') table) = []
    \<and> (case snd (sd_pipeline os (Inr soup) fs) sd_csv of None \<Rightarrow> False
        | Some f \<Rightarrow> csv_reader (written f) = Inr [csv_headers])"
  using sd_pipeline_table [OF assms, of os fs] csv_reader_lines [of "[csv_headers]"]
  by (simp add: sd_loop_same)

theorem sd_writes_no_url_witness:
  "find_first (py ''table'') page_link = Some table_link
   \<and> find_all (py ''tr'') table_link = [header_row, row_link]
   \<and> map attrs (find_all (py ''a'') row_link) = [[(py ''href'', py ''/docs/report.pdf'')]]
   \<and> sd_loop [] (find_all (py ''tr'') table_link) = []
   \<and> (case snd (sd_pipeline windows (Inr page_link) no_files) sd_csv of None \<Rightarrow> False
        | Some f \<Rightarrow> csv_reader (written f) = Inr [csv_headers])"
proof -
  have 1: "find_first (py ''table'') page_link = Some table_link"
    by (rule find_tables)
  have 2: "map attrs (find_all (py ''a'') row_link) = [[(py ''href'', py ''/docs/report.pdf'')]]"
    by (simp add: row_link_def page_defs)
  show ?thesis
    using sd_writes_no_url [OF 1, of windows no_files] 1 2 find_rows(4) by blast
qed

text \<open>
  C8. Neither notebook has its newlines translated (\<open>newline=''\<close>), and the South
  Dakota file is encoded in UTF-8; the Senate file is opened without an encoding and
  is encoded in whatever the locale of the platform says, \<open>cp1252\<close> in the instance,
  where a row with a character that cp1252 lacks ends the run with
  \<open>UnicodeEncodeError\<close> after the header and the row before it.
\<close>

theorem senate_encoding_is_the_locale:
  assumes "find_first (py ''table'') soup = Some table"
  shows "(case snd (senate_pipeline os (Inr soup) fs) senate_csv of None \<Rightarrow> False
          | Some f \<Rightarrow> file_encoding os f = locale_encoding os \<and> file_text os f = written f)
    \<and> (case snd (sd_pipeline os (Inr soup) fs) sd_csv of None \<Rightarrow> False
          | Some f \<Rightarrow> file_encoding os f = py ''utf-8'' \<and> file_text os f = written f)"
  using senate_file_rows [OF assms, of os fs] sd_pipeline_table [OF assms, of os fs]
  by (simp add: file_encoding_def file_text_def newline_translated_def)

theorem senate_encoding_is_the_locale_witness:
  "find_first (py ''table'') page_two_rows = Some table_two_rows
   \<and> (case snd (senate_pipeline windows (Inr page_two_rows) no_files) senate_csv of
         None \<Rightarrow> False
       | Some f \<Rightarrow> file_encoding windows f = py ''cp1252'' \<and> file_text windows f = written f)
   \<and> (case snd (sd_pipeline windows (Inr page_two_rows) no_files) sd_csv of None \<Rightarrow> False
       | Some f \<Rightarrow> file_encoding windows f = py ''utf-8'' \<and> file_text windows f = written f)
   \<and> py ''cp1252'' \<noteq> py ''utf-8''
   \<and> senate_pipeline windows (Inr page_lukasz) no_files =
       (Some UnicodeEncodeError, no_files(senate_csv \<mapsto> \<lparr>newline = Some [], encoding = None,
          written = concat (map csv_line [headers, [py ''Ann'', py ''Lee'', py ''Acme, Inc.'']])\<rparr>))"
proof -
  have 1: "find_first (py ''table'') page_two_rows = Some table_two_rows"
    by (rule find_tables)
  have 2: "py ''cp1252'' \<noteq> py ''utf-8''"
    by (simp add: py_def)
  have 3: "locale_encoding windows = py ''cp1252''"
    by (simp add: windows_def)
  let ?f = "\<lparr>newline = Some [], encoding = None, written = csv_line headers\<rparr>"
  have "senate_loop windows ?f ([row_ann] @ row_lukasz # [row_bo]) =
      (Some (row_error row_lukasz),
       ?f\<lparr>written := written ?f @ concat (map csv_line (map senate_fields [row_ann]))\<rparr>)"
    by (rule senate_loop_stop) (simp_all add: row_ok_rows)
  then have 4: "senate_pipeline windows (Inr page_lukasz) no_files =
       (Some UnicodeEncodeError, no_files(senate_csv \<mapsto> \<lparr>newline = Some [], encoding = None,
          written = concat (map csv_line [headers, [py ''Ann'', py ''Lee'', py ''Acme, Inc.'']])\<rparr>))"
    using senate_pipeline_table [OF find_tables(7), of windows no_files]
    by (simp add: find_rows senate_fields_rows row_error_def has_cells_rows)
  show ?thesis
    using senate_encoding_is_the_locale [OF 1, where fs = no_files and os = windows] 1 2 3 4
    by (simp split: option.splits)
qed

text \<open>
  C9. The extraction loop of the South Dakota notebook adds nothing to
  \<open>data_to_write\<close>, so whatever the rows of the page are, the write step ends
  normally with a file that holds the header line
  \<open>company,location,date,employees_laid_off,url\<close> and no data row.
\<close>

theorem sd_writes_header_only:
  "sd_loop [] rows = []
   \<and> sd_write os (sd_loop [] rows) fs =
       (None, fs(sd_csv \<mapsto> \<lparr>newline = Some [], encoding = Some (py ''utf-8''),
            written = py ''company,location,date,employees_laid_off,url'' @ [CR, LF]\<rparr>))
   \<and> csv_reader (py ''company,location,date,employees_laid_off,url'' @ [CR, LF]) =
       Inr [csv_headers]"
proof -
  have "csv_reader (py ''company,location,date,employees_laid_off,url'' @ [CR, LF]) =
      Inr [csv_headers]"
    using csv_reader_lines [of "[csv_headers]"] by (simp add: csv_line_csv_headers)
  then show ?thesis
    by (simp add: sd_loop_same sd_write_Nil csv_line_csv_headers)
qed

theorem sd_writes_header_only_witness:
  "find_all (py ''tr'') table_link = [header_row, row_link]
   \<and> sd_loop [] [header_row, row_link] = []
   \<and> sd_write windows (sd_loop [] [header_row, row_link]) no_files =
       (None, no_files(sd_csv \<mapsto> \<lparr>newline = Some [], encoding = Some (py ''utf-8''),
            written = py ''company,location,date,employees_laid_off,url'' @ [CR, LF]\<rparr>))
   \<and> csv_reader (py ''company,location,date,employees_laid_off,url'' @ [CR, LF]) =
       Inr [csv_headers]"
  using sd_writes_header_only [of "[header_row, row_link]" windows no_files] find_rows(4)
  by blast

text \<open>
  C10. When the table has no row, or only the header row, the Senate notebook ends
  normally and its CSV holds the header line and nothing else: the slice \<open>[1:]\<close> of
  a list of at most one row is empty and the loop body never runs.
\<close>

theorem senate_header_only:
  assumes "find_first (py ''table'') soup = Some table"
    and "length (find_all (py ''tr'') table) \<le> 1"
  shows "senate_pipeline os (Inr soup) fs =
           (None, fs(senate_csv \<mapsto> \<lparr>newline = Some [], encoding = None,
                       written = py ''first,last,affiliation'' @ [CR, LF]\<rparr>))
         \<and> csv_reader (py ''first,last,affiliation'' @ [CR, LF]) = Inr [headers]"
proof -
  have "drop 1 (find_all (py ''tr'') table) = []"
    using assms(2) by simp
  then have "senate_pipeline os (Inr soup) fs =
      (None, fs(senate_csv \<mapsto>
         \<lparr>newline = Some [], encoding = None, written = csv_line headers\<rparr>))"
    using senate_pipeline_table [OF assms(1), of os fs] by simp
  moreover have "csv_reader (py ''first,last,affiliation'' @ [CR, LF]) = Inr [headers]"
    using csv_reader_lines [of "[headers]"] by (simp add: csv_line_headers)
  ultimately show ?thesis
    by (simp add: csv_line_headers)
qed

theorem senate_header_only_witness:
  "find_first (py ''table'') page_header_only = Some table_header_only
   \<and> length (find_all (py ''tr'') table_header_only) \<le> 1
   \<and> senate_pipeline windows (Inr page_header_only) no_files =
           (None, no_files(senate_csv \<mapsto> \<lparr>newline = Some [], encoding = None,
                       written = py ''first,last,affiliation'' @ [CR, LF]\<rparr>))
   \<and> csv_reader (py ''first,last,affiliation'' @ [CR, LF]) = Inr [headers]"
proof -
  have 1: "find_first (py ''table'') page_header_only = Some table_header_only"
    by (simp add: page_header_only_def table_header_only_def page_defs)
  have 2: "length (find_all (py ''tr'') table_header_only) \<le> 1"
    by (simp add: table_header_only_def page_defs)
  show ?thesis
    using senate_header_only [OF 1 2, of windows no_files] 1 2 by simp
qed

end
